theory Spec2Isabelle
  imports Main "HOL-Library.Product_Lexorder" "HOL-Library.Stream"
begin

section \<open>Data model\<close>

text \<open>
  The embedding of \<open>minesweeper.py\<close>: the classes \<open>Sentence\<close>, \<open>MinesweeperAI\<close> and
  \<open>Minesweeper\<close>. Objects are records, a method takes the object and returns the updated
  one, Python integers are \<open>int\<close>, Python sets are sets, and a loop that may run forever
  returns an \<open>option\<close> whose \<open>None\<close> is the run that never ends.
\<close>

text \<open>
  A cell is a pair \<open>(i, j)\<close> of Python integers. A \<open>Sentence\<close> object holds a set of
  cells and an integer count; \<open>Sentence.__eq__\<close> compares both fields, which is the
  equality of the record.
\<close>

type_synonym cell = "int \<times> int"

record sentence =
  cells :: "cell set"
  count :: int

text \<open>
  The fields of a \<open>MinesweeperAI\<close> object. The knowledge base is a Python list of
  sentences: order and duplicates are kept.
\<close>

record ai =
  height :: int
  width :: int
  moves_made :: "cell set"
  mines :: "cell set"
  safes :: "cell set"
  knowledge :: "sentence list"

section \<open>Sentence\<close>

text \<open>\<open>Sentence.known_mines\<close>: \<open>len(self.cells) == self.count and self.count > 0\<close>.\<close>

definition known_mines :: "sentence \<Rightarrow> cell set" where
  "known_mines s =
     (if int (card (cells s)) = count s \<and> count s > 0 then cells s else {})"

text \<open>\<open>Sentence.known_safes\<close>: \<open>self.count == 0\<close>.\<close>

definition known_safes :: "sentence \<Rightarrow> cell set" where
  "known_safes s = (if count s = 0 then cells s else {})"

text \<open>\<open>Sentence.mark_mine\<close> and \<open>Sentence.mark_safe\<close>; the object is mutated in place, the
  model returns the new value.\<close>

definition sentence_mark_mine :: "cell \<Rightarrow> sentence \<Rightarrow> sentence" where
  "sentence_mark_mine c s =
     (if c \<in> cells s then s\<lparr>cells := cells s - {c}, count := count s - 1\<rparr> else s)"

definition sentence_mark_safe :: "cell \<Rightarrow> sentence \<Rightarrow> sentence" where
  "sentence_mark_safe c s =
     (if c \<in> cells s then s\<lparr>cells := cells s - {c}\<rparr> else s)"

section \<open>MinesweeperAI\<close>

text \<open>\<open>MinesweeperAI.__init__\<close>.\<close>

definition ai_init :: "int \<Rightarrow> int \<Rightarrow> ai" where
  "ai_init h w =
     \<lparr>height = h, width = w, moves_made = {}, mines = {}, safes = {}, knowledge = []\<rparr>"

text \<open>\<open>MinesweeperAI.mark_mine\<close> and \<open>MinesweeperAI.mark_safe\<close>: the cell joins the set,
  then every sentence of the knowledge base is updated in place.\<close>

definition mark_mine :: "cell \<Rightarrow> ai \<Rightarrow> ai" where
  "mark_mine c st =
     st\<lparr>mines := insert c (mines st),
        knowledge := map (sentence_mark_mine c) (knowledge st)\<rparr>"

definition mark_safe :: "cell \<Rightarrow> ai \<Rightarrow> ai" where
  "mark_safe c st =
     st\<lparr>safes := insert c (safes st),
        knowledge := map (sentence_mark_safe c) (knowledge st)\<rparr>"

text \<open>
  Step 2 of \<open>add_knowledge\<close>: the two nested loops over \<open>di\<close> and \<open>dj\<close> in \<open>[-1, 0, 1]\<close>.
  \<open>neighbor_step\<close> is the body of the inner loop.
\<close>

definition neighbor_step :: "int \<Rightarrow> int \<Rightarrow> cell \<Rightarrow> int \<Rightarrow> int \<Rightarrow> cell set \<Rightarrow> cell set" where
  "neighbor_step h w c di dj acc =
     (if di = 0 \<and> dj = 0 then acc
      else let new_cell = (fst c + di, snd c + dj)
           in if 0 \<le> fst new_cell \<and> fst new_cell < h \<and> 0 \<le> snd new_cell \<and> snd new_cell < w
              then insert new_cell acc else acc)"

definition neighbors :: "int \<Rightarrow> int \<Rightarrow> cell \<Rightarrow> cell set" where
  "neighbors h w c =
     fold (\<lambda>di acc. fold (\<lambda>dj acc'. neighbor_step h w c di dj acc') [-1, 0, 1] acc)
          [-1, 0, 1] {}"

text \<open>
  Steps 1 to 4 of \<open>add_knowledge\<close>, everything before the call of \<open>update_knowledge\<close>.
  The name \<open>neighbors\<close> is reassigned to \<open>neighbors - self.safes - self.mines\<close> before
  the count is adjusted, so the sum
  \<open>sum(1 for neighbor in neighbors if neighbor in self.mines)\<close> runs over the cells
  that are left (\<open>undetermined\<close> below).
\<close>

definition add_sentence :: "cell \<Rightarrow> int \<Rightarrow> ai \<Rightarrow> ai" where
  "add_sentence c cnt st0 =
     (let st = mark_safe c (st0\<lparr>moves_made := insert c (moves_made st0)\<rparr>);
          nbrs = neighbors (height st) (width st) c;
          undetermined = nbrs - safes st - mines st;
          cnt' = cnt - int (card (Set.filter (\<lambda>n. n \<in> mines st) undetermined))
      in if undetermined \<noteq> {}
         then st\<lparr>knowledge := knowledge st @ [\<lparr>cells = undetermined, count = cnt'\<rparr>]\<rparr>
         else st)"

text \<open>
  One pass of the \<open>while\<close> loop of \<open>update_knowledge\<close>.

  The first \<open>for\<close> loop unions \<open>known_safes\<close> and \<open>known_mines\<close> over the knowledge base.
\<close>

definition collect_safes :: "sentence list \<Rightarrow> cell set" where
  "collect_safes kb = fold (\<lambda>s acc. acc \<union> known_safes s) kb {}"

definition collect_mines :: "sentence list \<Rightarrow> cell set" where
  "collect_mines kb = fold (\<lambda>s acc. acc \<union> known_mines s) kb {}"

text \<open>
  The two marking loops, over the cells in iteration order; the second component of the
  pair is the flag \<open>something_changed\<close>.
\<close>

definition mark_new_safes :: "cell list \<Rightarrow> ai \<times> bool \<Rightarrow> ai \<times> bool" where
  "mark_new_safes cs p =
     fold (\<lambda>c (st, changed). if c \<notin> safes st then (mark_safe c st, True) else (st, changed))
          cs p"

definition mark_new_mines :: "cell list \<Rightarrow> ai \<times> bool \<Rightarrow> ai \<times> bool" where
  "mark_new_mines cs p =
     fold (\<lambda>c (st, changed). if c \<notin> mines st then (mark_mine c st, True) else (st, changed))
          cs p"

text \<open>
  The inference loops. \<open>infer_step\<close> is the body of the inner loop for the pair
  \<open>(sentence1, sentence2)\<close>; \<open>kb\<close> is \<open>self.knowledge\<close>, which the loops do not change,
  and \<open>new\<close> is \<open>new_sentences\<close>.
\<close>

definition infer_step :: "sentence list \<Rightarrow> sentence \<Rightarrow> sentence \<Rightarrow> sentence list \<Rightarrow> sentence list" where
  "infer_step kb s1 s2 new =
     (if s1 = s2 then new
      else if cells s2 \<subseteq> cells s1
      then let new_sentence = \<lparr>cells = cells s1 - cells s2, count = count s1 - count s2\<rparr>
           in if new_sentence \<notin> set kb \<and> new_sentence \<notin> set new
              then (if cells new_sentence \<noteq> {} then new @ [new_sentence] else new)
              else new
      else new)"

definition infer :: "sentence list \<Rightarrow> sentence list" where
  "infer kb = fold (\<lambda>s1 new. fold (\<lambda>s2 new'. infer_step kb s1 s2 new') kb new) kb []"

text \<open>
  The part of a pass before the inference loops: collect, mark, drop the empty sentences.
  Python iterates over a set in an order it does not specify; the model takes the sorted
  order, and \<open>mark_new_safes_order\<close> and \<open>mark_new_mines_order\<close> below show that the
  order does not matter.
\<close>

definition mark_phase :: "ai \<Rightarrow> ai \<times> bool" where
  "mark_phase st0 =
     (let new_safes = collect_safes (knowledge st0);
          new_mines = collect_mines (knowledge st0);
          (st1, ch1) = mark_new_safes (sorted_list_of_set new_safes) (st0, False);
          (st2, ch2) = mark_new_mines (sorted_list_of_set new_mines) (st1, ch1)
      in (st2\<lparr>knowledge := filter (\<lambda>s. cells s \<noteq> {}) (knowledge st2)\<rparr>, ch2))"

text \<open>The inference part of a pass: derive, extend the knowledge base, set the flag.\<close>

definition infer_phase :: "ai \<times> bool \<Rightarrow> ai \<times> bool" where
  "infer_phase p =
     (case p of (st, changed) \<Rightarrow>
        let new_sentences = infer (knowledge st)
        in if new_sentences \<noteq> []
           then (st\<lparr>knowledge := knowledge st @ new_sentences\<rparr>, True)
           else (st, changed))"

definition update_pass :: "ai \<Rightarrow> ai \<times> bool" where
  "update_pass st = infer_phase (mark_phase st)"

text \<open>
  \<open>update_knowledge\<close>: the loop runs a pass and repeats while the pass has set the flag.
  A run that never leaves the loop is the value \<open>None\<close>.
\<close>

partial_function (option) update_knowledge :: "ai \<Rightarrow> ai option" where
  "update_knowledge st =
     (case update_pass st of (st', changed) \<Rightarrow>
        if changed then update_knowledge st' else Some st')"

declare update_knowledge.simps [code]

definition add_knowledge :: "cell \<Rightarrow> int \<Rightarrow> ai \<Rightarrow> ai option" where
  "add_knowledge c cnt st = update_knowledge (add_sentence c cnt st)"


text \<open>
  \<open>make_random_move\<close>. The nested loops over \<open>range(self.height)\<close> and
  \<open>range(self.width)\<close> build the list \<open>choices\<close>. \<open>random.choice\<close> is the standard library's:
  it returns \<open>seq[k]\<close> for an index \<open>k\<close> drawn uniformly from \<open>range(len(seq))\<close>. The draw
  is the parameter \<open>k\<close> of the model, reduced modulo the length so that every natural
  number stands for a draw.
\<close>

definition choices :: "ai \<Rightarrow> cell list" where
  "choices st =
     concat (map (\<lambda>i. concat (map (\<lambda>j. if (i, j) \<notin> moves_made st \<and> (i, j) \<notin> mines st
                                         then [(i, j)] else [])
                                   [0..width st - 1]))
                 [0..height st - 1])"

definition random_choice :: "nat \<Rightarrow> 'a list \<Rightarrow> 'a" where
  "random_choice k xs = xs ! (k mod length xs)"

definition make_random_move :: "nat \<Rightarrow> ai \<Rightarrow> cell option" where
  "make_random_move k st =
     (let ch = choices st in if ch \<noteq> [] then Some (random_choice k ch) else None)"

section \<open>Minesweeper\<close>

text \<open>
  The board object. \<open>self.mines\<close> of the board is the field \<open>ms_mines\<close> (the record of the
  engine already has a field \<open>mines\<close>), and likewise \<open>ms_height\<close> and \<open>ms_width\<close>.
\<close>

record minesweeper =
  ms_height :: int
  ms_width :: int
  ms_mines :: "cell set"
  board :: "bool list list"
  mines_found :: "cell set"

datatype py_error = ValueError

text \<open>
  \<open>random.randrange(n)\<close> raises \<open>ValueError\<close> for \<open>n \<le> 0\<close> and otherwise returns some
  integer of \<open>range(n)\<close>. The source of randomness is a stream of integers; the next
  element, reduced modulo \<open>n\<close>, is the value returned, so that every stream is a
  possible run of the generator and every run is some stream.
\<close>

definition randrange :: "int \<Rightarrow> int stream \<Rightarrow> py_error + int \<times> int stream" where
  "randrange n rs = (if n \<le> 0 then Inl ValueError else Inr (shd rs mod n, stl rs))"

text \<open>The two loops that build the empty field.\<close>

definition empty_board :: "int \<Rightarrow> int \<Rightarrow> bool list list" where
  "empty_board h w = map (\<lambda>i. map (\<lambda>j. False) [0..w - 1]) [0..h - 1]"

text \<open>
  The placement loop \<open>while len(self.mines) != mines\<close>. The indices \<open>i\<close> and \<open>j\<close> come from
  \<open>randrange(height)\<close> and \<open>randrange(width)\<close>, so they are inside the board that
  \<open>empty_board\<close> has built and the reads and the write never leave it.
\<close>

partial_function (option) place_mines ::
  "int \<Rightarrow> int \<Rightarrow> int \<Rightarrow> cell set \<Rightarrow> bool list list \<Rightarrow> int stream
     \<Rightarrow> (py_error + cell set \<times> bool list list) option" where
  "place_mines h w n ms b rs =
     (if int (card ms) \<noteq> n
      then (case randrange h rs of
              Inl e \<Rightarrow> Some (Inl e)
            | Inr (i, rs1) \<Rightarrow>
                (case randrange w rs1 of
                   Inl e \<Rightarrow> Some (Inl e)
                 | Inr (j, rs2) \<Rightarrow>
                     if \<not> b ! nat i ! nat j
                     then place_mines h w n (insert (i, j) ms)
                            (b[nat i := (b ! nat i)[nat j := True]]) rs2
                     else place_mines h w n ms b rs2))
      else Some (Inr (ms, b)))"

declare place_mines.simps [code]

text \<open>\<open>Minesweeper.__init__(height, width, mines)\<close>.\<close>

definition minesweeper_init ::
  "int \<Rightarrow> int \<Rightarrow> int \<Rightarrow> int stream \<Rightarrow> (py_error + minesweeper) option" where
  "minesweeper_init h w n rs =
     (case place_mines h w n {} (empty_board h w) rs of
        None \<Rightarrow> None
      | Some (Inl e) \<Rightarrow> Some (Inl e)
      | Some (Inr (ms, b)) \<Rightarrow>
          Some (Inr \<lparr>ms_height = h, ms_width = w, ms_mines = ms, board = b,
                     mines_found = {}\<rparr>))"

text \<open>\<open>Minesweeper.nearby_mines\<close>: the oracle that reports the count of a revealed cell.\<close>

definition nearby_mines :: "minesweeper \<Rightarrow> cell \<Rightarrow> int" where
  "nearby_mines g c =
     fold (\<lambda>i cnt.
            fold (\<lambda>j cnt'.
                   if (i, j) = c then cnt'
                   else if 0 \<le> i \<and> i < ms_height g \<and> 0 \<le> j \<and> j < ms_width g
                   then (if board g ! nat i ! nat j then cnt' + 1 else cnt')
                   else cnt')
                 [snd c - 1..snd c + 1] cnt)
          [fst c - 1..fst c + 1] 0"

section \<open>Notions of the specification\<close>

text \<open>A cell inside the grid \<open>[0, height) \<times> [0, width)\<close>.\<close>

definition in_bounds :: "int \<Rightarrow> int \<Rightarrow> cell \<Rightarrow> bool" where
  "in_bounds h w c = (0 \<le> fst c \<and> fst c < h \<and> 0 \<le> snd c \<and> snd c < w)"

text \<open>
  The candidate set of \<open>NextRandomMove\<close> in the words of the specification: all grid cells
  excluding \<open>moves_made\<close> and the known mines.
\<close>

definition eligible :: "ai \<Rightarrow> cell set" where
  "eligible st = {c. in_bounds (height st) (width st) c \<and> c \<notin> moves_made st \<and> c \<notin> mines st}"

section \<open>Notions used in the proofs\<close>

text \<open>
  The operations of the engine as a transition relation. Besides the four methods, a state
  is also visited after steps 1 to 4 of \<open>add_knowledge\<close> and after every pass of the loop
  of \<open>update_knowledge\<close>, whether or not the loop ends.
\<close>

inductive ai_step :: "ai \<Rightarrow> ai \<Rightarrow> bool" where
  step_mark_mine: "ai_step st (mark_mine c st)"
| step_mark_safe: "ai_step st (mark_safe c st)"
| step_add_sentence: "ai_step st (add_sentence c n st)"
| step_pass: "ai_step st (fst (update_pass st))"
| step_add_knowledge: "add_knowledge c n st = Some st' \<Longrightarrow> ai_step st st'"
| step_update_knowledge: "update_knowledge st = Some st' \<Longrightarrow> ai_step st st'"

text \<open>The three sets of the second state contain those of the first.\<close>

definition grows :: "ai \<Rightarrow> ai \<Rightarrow> bool" where
  "grows st st' =
     (moves_made st \<subseteq> moves_made st' \<and> mines st \<subseteq> mines st' \<and> safes st \<subseteq> safes st')"

text \<open>No sentence of the knowledge base mentions a cell known to be safe or a mine.\<close>

definition kb_separate :: "ai \<Rightarrow> bool" where
  "kb_separate st =
     (\<forall>s\<in>set (knowledge st). cells s \<inter> safes st = {} \<and> cells s \<inter> mines st = {})"

text \<open>The sentence \<open>Sentence(sentence1.cells - sentence2.cells, sentence1.count - sentence2.count)\<close>.\<close>

definition resolvent :: "sentence \<Rightarrow> sentence \<Rightarrow> sentence" where
  "resolvent s1 s2 = \<lparr>cells = cells s1 - cells s2, count = count s1 - count s2\<rparr>"

text \<open>
  The cells that a pass marks, and what the two marking loops together do to one sentence:
  the cells of \<open>S\<close> are removed as safe, then those of \<open>M\<close> as mines.
\<close>

definition new_safes :: "ai \<Rightarrow> cell set" where
  "new_safes st = set (sorted_list_of_set (collect_safes (knowledge st))) - safes st"

definition new_mines :: "ai \<Rightarrow> cell set" where
  "new_mines st = set (sorted_list_of_set (collect_mines (knowledge st))) - mines st"

definition reduce_sentence :: "cell set \<Rightarrow> cell set \<Rightarrow> sentence \<Rightarrow> sentence" where
  "reduce_sentence S M s =
     s\<lparr>cells := cells s - S - M, count := count s - int (card ((cells s - S) \<inter> M))\<rparr>"

text \<open>
  A knowledge base is consistent with a placement \<open>M\<close> of mines when the count of every
  sentence is the number of its cells that are in \<open>M\<close>; \<open>U\<close> is a finite set of cells that
  contains the cells of all sentences.
\<close>

definition consistent :: "cell set \<Rightarrow> cell set \<Rightarrow> ai \<Rightarrow> bool" where
  "consistent U M st =
     (finite U \<and> (\<forall>s\<in>set (knowledge st). cells s \<subseteq> U \<and> count s = int (card (cells s \<inter> M))))"

text \<open>
  The two quantities that a pass of the loop decreases: the cells of \<open>U\<close> not yet known
  safe plus those not yet known to be mines, and the non-empty subsets of \<open>U\<close> that are not
  the cell set of a sentence.
\<close>

definition unknown_cells :: "cell set \<Rightarrow> ai \<Rightarrow> nat" where
  "unknown_cells U st = card (U - safes st) + card (U - mines st)"

definition absent_sets :: "cell set \<Rightarrow> ai \<Rightarrow> nat" where
  "absent_sets U st = card (Pow U - {{}} - cells ` set (knowledge st))"



section \<open>Concrete engines and boards\<close>

text \<open>The states of the examples.\<close>

definition board_3x3_last_mine :: ai where
  "board_3x3_last_mine =
     \<lparr>height = 3, width = 3,
      moves_made = {(0, 0), (0, 1), (0, 2), (1, 0), (1, 1), (1, 2), (2, 0), (2, 1)},
      mines = {(2, 2)}, safes = {}, knowledge = []\<rparr>"

definition board_3x3_one_left :: ai where
  "board_3x3_one_left =
     \<lparr>height = 3, width = 3,
      moves_made = {(0, 0), (0, 1), (0, 2), (1, 0), (1, 1), (1, 2), (2, 0)},
      mines = {(2, 2)}, safes = {}, knowledge = []\<rparr>"

definition game_2x3 :: minesweeper where
  "game_2x3 =
     \<lparr>ms_height = 2, ms_width = 3, ms_mines = {(0, 1), (1, 1)},
      board = [[False, True, False], [False, True, False]], mines_found = {}\<rparr>"

definition known_mine_3x3 :: ai where
  "known_mine_3x3 = mark_safe (1, 1) (mark_mine (1, 0) (ai_init 3 3))"

definition observed_3x3 :: ai where
  "observed_3x3 =
     \<lparr>height = 3, width = 3, moves_made = {(0, 0)}, mines = {}, safes = {(0, 0)},
      knowledge = [\<lparr>cells = {(0, 1), (1, 0), (1, 1)}, count = 1\<rparr>]\<rparr>"

definition observed_twice_3x3 :: ai where
  "observed_twice_3x3 =
     \<lparr>height = 3, width = 3, moves_made = {(0, 0)}, mines = {}, safes = {(0, 0)},
      knowledge = [\<lparr>cells = {(0, 1), (1, 0), (1, 1)}, count = 1\<rparr>,
                   \<lparr>cells = {(0, 1), (1, 0), (1, 1)}, count = 2\<rparr>]\<rparr>"

definition scenario3 :: ai where
  "scenario3 =
     \<lparr>height = 3, width = 3, moves_made = {}, mines = {}, safes = {},
      knowledge = [\<lparr>cells = {(0, 0), (0, 1), (0, 2)}, count = 1\<rparr>,
                   \<lparr>cells = {(0, 0), (0, 1)}, count = 1\<rparr>]\<rparr>"

definition decided_pair :: ai where
  "decided_pair =
     \<lparr>height = 3, width = 3, moves_made = {}, mines = {}, safes = {},
      knowledge = [\<lparr>cells = {(0, 0), (0, 1)}, count = 2\<rparr>, \<lparr>cells = {(0, 0)}, count = 1\<rparr>]\<rparr>"

text \<open>
  A family of knowledge bases over the cells \<open>(0, 1)\<close> and \<open>(0, 3)\<close> on which no sentence
  is ever decided: two sentences over both cells with counts 4 and 7, and sentences over
  one of the cells whose counts are 2 modulo 3.
\<close>

definition loops :: "ai \<Rightarrow> bool" where
  "loops st =
     (\<lparr>cells = {(0, 1), (0, 3)}, count = 4\<rparr> \<in> set (knowledge st) \<and>
      \<lparr>cells = {(0, 1), (0, 3)}, count = 7\<rparr> \<in> set (knowledge st) \<and>
      (\<exists>s\<in>set (knowledge st). cells s = {(0, 1)}) \<and>
      (\<forall>s\<in>set (knowledge st).
         (cells s = {(0, 1), (0, 3)} \<and> (count s = 4 \<or> count s = 7)) \<or>
         ((cells s = {(0, 1)} \<or> cells s = {(0, 3)}) \<and> count s mod 3 = 2)))"

text \<open>
  A 1 by 4 engine after \<open>add_knowledge((0, 0), 2)\<close> and \<open>add_knowledge((0, 2), 4)\<close>, and the
  state in which a third call \<open>add_knowledge((0, 2), 7)\<close> enters \<open>update_knowledge\<close>.
\<close>

definition two_observations_1x4 :: ai where
  "two_observations_1x4 =
     \<lparr>height = 1, width = 4, moves_made = {(0, 0), (0, 2)}, mines = {},
      safes = {(0, 0), (0, 2)},
      knowledge = [\<lparr>cells = {(0, 1)}, count = 2\<rparr>, \<lparr>cells = {(0, 1), (0, 3)}, count = 4\<rparr>,
                   \<lparr>cells = {(0, 3)}, count = 2\<rparr>]\<rparr>"

definition looping_1x4 :: ai where
  "looping_1x4 =
     two_observations_1x4
       \<lparr>knowledge := knowledge two_observations_1x4 @ [\<lparr>cells = {(0, 1), (0, 3)}, count = 7\<rparr>]\<rparr>"


section \<open>The neighbourhood\<close>

lemma neighbor_step_iff:
  "n \<in> neighbor_step h w c di dj acc \<longleftrightarrow>
     n \<in> acc \<or> (\<not> (di = 0 \<and> dj = 0) \<and> n = (fst c + di, snd c + dj) \<and> in_bounds h w n)"
  by (auto simp: neighbor_step_def in_bounds_def Let_def)

lemma neighbors_iff:
  "n \<in> neighbors h w c \<longleftrightarrow>
     (\<exists>di\<in>{-1, 0, 1}. \<exists>dj\<in>{-1, 0, 1}. \<not> (di = 0 \<and> dj = 0) \<and> n = (fst c + di, snd c + dj) \<and> in_bounds h w n)"
  unfolding neighbors_def by (simp add: neighbor_step_iff)

lemma unit_step: "\<bar>x\<bar> \<le> 1 \<longleftrightarrow> x \<in> {-1, 0, (1::int)}"
  by auto

lemma neighbors_eq:
  "neighbors h w c = {n. in_bounds h w n \<and> n \<noteq> c \<and> \<bar>fst n - fst c\<bar> \<le> 1 \<and> \<bar>snd n - snd c\<bar> \<le> 1}"
proof (rule set_eqI)
  fix n :: cell
  have n: "n = (fst c + (fst n - fst c), snd c + (snd n - snd c))" by simp
  show "n \<in> neighbors h w c \<longleftrightarrow> n \<in> {n. in_bounds h w n \<and> n \<noteq> c \<and> \<bar>fst n - fst c\<bar> \<le> 1 \<and> \<bar>snd n - snd c\<bar> \<le> 1}"
  proof
    assume "n \<in> neighbors h w c"
    then obtain di dj where d: "di \<in> {-1, 0, 1}" "dj \<in> {-1, 0, 1}" "\<not> (di = 0 \<and> dj = 0)"
      "n = (fst c + di, snd c + dj)" "in_bounds h w n"
      unfolding neighbors_iff by blast
    then have "fst n - fst c = di" "snd n - snd c = dj" by simp_all
    with d show "n \<in> {n. in_bounds h w n \<and> n \<noteq> c \<and> \<bar>fst n - fst c\<bar> \<le> 1 \<and> \<bar>snd n - snd c\<bar> \<le> 1}"
      by (cases c) (auto simp: unit_step)
  next
    assume "n \<in> {n. in_bounds h w n \<and> n \<noteq> c \<and> \<bar>fst n - fst c\<bar> \<le> 1 \<and> \<bar>snd n - snd c\<bar> \<le> 1}"
    then have a: "in_bounds h w n" "n \<noteq> c" "fst n - fst c \<in> {-1, 0, 1}" "snd n - snd c \<in> {-1, 0, 1}"
      by (simp_all add: unit_step)
    have "\<not> (fst n - fst c = 0 \<and> snd n - snd c = 0)"
      using a(2) by (cases n, cases c) simp
    with a n show "n \<in> neighbors h w c"
      unfolding neighbors_iff by blast
  qed
qed


section \<open>The random move\<close>

lemma row_filter:
  "concat (map (\<lambda>j. if P (i, j) then [(i, j)] else []) js) = filter P (map (Pair i) js)"
  by (induction js) simp_all

lemma grid_filter:
  "concat (map (\<lambda>i. concat (map (\<lambda>j. if P (i, j) then [(i, j)] else []) js)) is) =
     filter P (List.product is js)"
  by (induction "is") (simp_all add: row_filter)

lemma choices_filter:
  "choices st =
     filter (\<lambda>c. c \<notin> moves_made st \<and> c \<notin> mines st)
       (List.product [0..height st - 1] [0..width st - 1])"
  unfolding choices_def by (rule grid_filter)

lemma distinct_choices: "distinct (choices st)"
  unfolding choices_filter by (intro distinct_filter distinct_product distinct_upto)

lemma set_choices: "set (choices st) = eligible st"
  unfolding choices_filter eligible_def in_bounds_def by auto

lemma length_choices: "length (choices st) = card (eligible st)"
  using distinct_card [OF distinct_choices, of st] by (simp add: set_choices)

lemma choices_Nil_iff: "choices st = [] \<longleftrightarrow> eligible st = {}"
  using set_choices [of st] by auto

lemma make_random_move_draw:
  assumes "c \<in> eligible st"
  shows "\<exists>!r. r < card (eligible st) \<and> make_random_move r st = Some c"
proof -
  from assms have ne: "choices st \<noteq> []" by (simp add: choices_Nil_iff) blast
  from assms have "c \<in> set (choices st)" by (simp add: set_choices)
  then obtain r where r: "r < length (choices st)" "choices st ! r = c"
    by (auto simp: in_set_conv_nth)
  show ?thesis
  proof (rule ex1I [of _ r])
    show "r < card (eligible st) \<and> make_random_move r st = Some c"
      using r ne by (simp add: make_random_move_def random_choice_def length_choices)
  next
    fix r'
    assume "r' < card (eligible st) \<and> make_random_move r' st = Some c"
    then have lt: "r' < length (choices st)" and mv: "make_random_move r' st = Some c"
      by (simp_all add: length_choices)
    from mv ne lt have "choices st ! r' = c"
      by (simp add: make_random_move_def random_choice_def)
    with lt r show "r' = r"
      using distinct_choices [of st] by (metis nth_eq_iff_index_eq)
  qed
qed

text \<open>
  Claim C8. \<open>make_random_move\<close> returns \<open>None\<close> exactly when no grid cell is outside
  \<open>moves_made\<close> and the known mines; otherwise it returns such a cell, and each such cell
  is the result of exactly one of the \<open>card (eligible st)\<close> equally likely draws of
  \<open>random.choice\<close>, which is the uniform choice. On the 3 by 3 grid with eight cells played
  and the ninth a known mine the result is \<open>None\<close>.
\<close>

theorem make_random_move_uniform:
  "(make_random_move k st = None \<longleftrightarrow> eligible st = {}) \<and>
   (eligible st \<noteq> {} \<longrightarrow> (\<exists>c\<in>eligible st. make_random_move k st = Some c)) \<and>
   (\<forall>c\<in>eligible st. \<exists>!r. r < card (eligible st) \<and> make_random_move r st = Some c) \<and>
   make_random_move k board_3x3_last_mine = None"
proof (intro conjI)
  show "make_random_move k st = None \<longleftrightarrow> eligible st = {}"
    by (simp add: make_random_move_def choices_Nil_iff)
  show "eligible st \<noteq> {} \<longrightarrow> (\<exists>c\<in>eligible st. make_random_move k st = Some c)"
  proof
    assume "eligible st \<noteq> {}"
    then have ne: "choices st \<noteq> []" by (simp add: choices_Nil_iff)
    then have "k mod length (choices st) < length (choices st)" by simp
    then have "choices st ! (k mod length (choices st)) \<in> set (choices st)"
      by (rule nth_mem)
    with ne show "\<exists>c\<in>eligible st. make_random_move k st = Some c"
      by (simp add: make_random_move_def random_choice_def set_choices Let_def)
  qed
  show "\<forall>c\<in>eligible st. \<exists>!r. r < card (eligible st) \<and> make_random_move r st = Some c"
    using make_random_move_draw by blast
  show "make_random_move k board_3x3_last_mine = None"
    by (simp add: make_random_move_def choices_def board_3x3_last_mine_def upto.simps)
qed

theorem make_random_move_uniform_witness:
  "(2, 1) \<in> eligible board_3x3_one_left \<and>
   eligible board_3x3_one_left \<noteq> {} \<and>
   (\<exists>c\<in>eligible board_3x3_one_left. make_random_move 5 board_3x3_one_left = Some c) \<and>
   (\<exists>!r. r < card (eligible board_3x3_one_left) \<and>
      make_random_move r board_3x3_one_left = Some (2, 1))"
proof -
  have e: "(2, 1) \<in> eligible board_3x3_one_left"
    by (simp add: eligible_def in_bounds_def board_3x3_one_left_def)
  then have ne: "eligible board_3x3_one_left \<noteq> {}" by blast
  show ?thesis
    using e ne make_random_move_uniform [of 5 board_3x3_one_left] by blast
qed

section \<open>Certainty extraction\<close>

text \<open>
  Claim C6. \<open>known_safes\<close> returns the whole cell set when the count is 0 and the empty
  set otherwise; \<open>known_mines\<close> returns the whole cell set when the number of cells
  equals the count and the count is positive, and the empty set otherwise.
\<close>

theorem certainty_extraction:
  "known_safes \<lparr>cells = cs, count = n\<rparr> = (if n = 0 then cs else {}) \<and>
   known_mines \<lparr>cells = cs, count = n\<rparr> = (if int (card cs) = n \<and> n > 0 then cs else {})"
  by (simp add: known_safes_def known_mines_def)

section \<open>Sentences\<close>

lemma sentence_mark_safe_eq: "sentence_mark_safe c s = s\<lparr>cells := cells s - {c}\<rparr>"
  by (simp add: sentence_mark_safe_def)

lemma sentence_mark_mine_eq:
  "sentence_mark_mine c s =
     s\<lparr>cells := cells s - {c}, count := count s - (if c \<in> cells s then 1 else 0)\<rparr>"
  by (simp add: sentence_mark_mine_def)

section \<open>The marking loops in closed form\<close>

lemma mark_new_safes_Cons:
  "mark_new_safes (c # cs) (st, ch) =
     (if c \<notin> safes st then mark_new_safes cs (mark_safe c st, True)
      else mark_new_safes cs (st, ch))"
  by (simp add: mark_new_safes_def)

lemma mark_new_mines_Cons:
  "mark_new_mines (c # cs) (st, ch) =
     (if c \<notin> mines st then mark_new_mines cs (mark_mine c st, True)
      else mark_new_mines cs (st, ch))"
  by (simp add: mark_new_mines_def)

lemma mark_new_safes_closed:
  "mark_new_safes cs (st, ch) =
     (st\<lparr>safes := safes st \<union> set cs,
         knowledge := map (\<lambda>s. s\<lparr>cells := cells s - (set cs - safes st)\<rparr>) (knowledge st)\<rparr>,
      ch \<or> \<not> set cs \<subseteq> safes st)"
proof (induction cs arbitrary: st ch)
  case Nil
  show ?case by (simp add: mark_new_safes_def)
next
  case (Cons c cs)
  show ?case
  proof (cases "c \<in> safes st")
    case True
    then have "set (c # cs) - safes st = set cs - safes st" "safes st \<union> set (c # cs) = safes st \<union> set cs"
      by auto
    moreover from True have "set (c # cs) \<subseteq> safes st \<longleftrightarrow> set cs \<subseteq> safes st" by simp
    ultimately show ?thesis using True
      by (simp add: mark_new_safes_Cons Cons.IH del: set_simps)
  next
    case False
    have c: "cells s - {c} - (set cs - insert c (safes st)) = cells s - (set (c # cs) - safes st)" for s :: sentence
      using False by auto
    have "insert c (safes st) \<union> set cs = safes st \<union> set (c # cs)" by auto
    with False show ?thesis
      by (simp add: mark_new_safes_Cons Cons.IH mark_safe_def sentence_mark_safe_eq c del: set_simps)
         auto
  qed
qed

lemma mark_new_mines_closed:
  "mark_new_mines cs (st, ch) =
     (st\<lparr>mines := mines st \<union> set cs,
         knowledge := map (\<lambda>s. s\<lparr>cells := cells s - (set cs - mines st),
                                   count := count s - int (card (cells s \<inter> (set cs - mines st)))\<rparr>)
                          (knowledge st)\<rparr>,
      ch \<or> \<not> set cs \<subseteq> mines st)"
proof (induction cs arbitrary: st ch)
  case Nil
  show ?case by (simp add: mark_new_mines_def)
next
  case (Cons c cs)
  show ?case
  proof (cases "c \<in> mines st")
    case True
    then have "set (c # cs) - mines st = set cs - mines st" "mines st \<union> set (c # cs) = mines st \<union> set cs"
      by auto
    moreover from True have "set (c # cs) \<subseteq> mines st \<longleftrightarrow> set cs \<subseteq> mines st" by simp
    ultimately show ?thesis using True
      by (simp add: mark_new_mines_Cons Cons.IH del: set_simps)
  next
    case False
    have c: "cells s - {c} - (set cs - insert c (mines st)) = cells s - (set (c # cs) - mines st)" for s :: sentence
      using False by auto
    have n: "(if c \<in> cells s then 1 else 0) + int (card ((cells s - {c}) \<inter> (set cs - insert c (mines st))))
               = int (card (cells s \<inter> (set (c # cs) - mines st)))" for s :: sentence
    proof (cases "c \<in> cells s")
      case True
      have "cells s \<inter> (set (c # cs) - mines st) = insert c ((cells s - {c}) \<inter> (set cs - insert c (mines st)))"
        using True False by auto
      moreover have "finite ((cells s - {c}) \<inter> (set cs - insert c (mines st)))" by simp
      moreover have "c \<notin> (cells s - {c}) \<inter> (set cs - insert c (mines st))" by simp
      ultimately show ?thesis using True by (simp del: set_simps Diff_insert0 Int_Diff)
    next
      case False
      then have "cells s \<inter> (set (c # cs) - mines st) = (cells s - {c}) \<inter> (set cs - insert c (mines st))"
        by auto
      with False show ?thesis by (simp del: set_simps)
    qed
    have n': "count s - (if c \<in> cells s then 1 else 0) - int (card ((cells s - {c}) \<inter> (set cs - insert c (mines st))))
               = count s - int (card (cells s \<inter> (set (c # cs) - mines st)))" for s :: sentence
      using n [of s] by linarith
    have "insert c (mines st) \<union> set cs = mines st \<union> set (c # cs)" by auto
    with False show ?thesis
      by (simp add: mark_new_mines_Cons Cons.IH mark_mine_def sentence_mark_mine_eq c n' del: set_simps)
         auto
  qed
qed

text \<open>The result of a marking loop depends on the set of cells it runs over, not on the order.\<close>

lemma mark_new_safes_order:
  "set cs = set cs' \<Longrightarrow> mark_new_safes cs p = mark_new_safes cs' p"
  by (cases p) (simp add: mark_new_safes_closed)

lemma mark_new_mines_order:
  "set cs = set cs' \<Longrightarrow> mark_new_mines cs p = mark_new_mines cs' p"
  by (cases p) (simp add: mark_new_mines_closed)


section \<open>The phases of a pass\<close>

lemma collect_fold: "fold (\<lambda>s acc. acc \<union> f s) kb A = A \<union> \<Union> (f ` set kb)"
  by (induction kb arbitrary: A) auto

lemma collect_safes_eq: "collect_safes kb = \<Union> (known_safes ` set kb)"
  by (simp add: collect_safes_def collect_fold)

lemma collect_mines_eq: "collect_mines kb = \<Union> (known_mines ` set kb)"
  by (simp add: collect_mines_def collect_fold)

lemma mark_phase_closed:
  "mark_phase st =
     (st\<lparr>safes := safes st \<union> new_safes st, mines := mines st \<union> new_mines st,
         knowledge := filter (\<lambda>s. cells s \<noteq> {})
                        (map (reduce_sentence (new_safes st) (new_mines st)) (knowledge st))\<rparr>,
      new_safes st \<noteq> {} \<or> new_mines st \<noteq> {})"
proof -
  define S where "S = set (sorted_list_of_set (collect_safes (knowledge st)))"
  define M where "M = set (sorted_list_of_set (collect_mines (knowledge st)))"
  have ns: "new_safes st = S - safes st" and nm: "new_mines st = M - mines st"
    by (simp_all add: new_safes_def new_mines_def S_def M_def)
  have 1: "mark_new_safes (sorted_list_of_set (collect_safes (knowledge st))) (st, False) =
        (st\<lparr>safes := safes st \<union> S,
            knowledge := map (\<lambda>s. s\<lparr>cells := cells s - (S - safes st)\<rparr>) (knowledge st)\<rparr>,
         \<not> S \<subseteq> safes st)"
    by (simp add: mark_new_safes_closed S_def)
  have 2: "mark_new_mines (sorted_list_of_set (collect_mines (knowledge st)))
        (st\<lparr>safes := safes st \<union> S,
            knowledge := map (\<lambda>s. s\<lparr>cells := cells s - (S - safes st)\<rparr>) (knowledge st)\<rparr>,
         \<not> S \<subseteq> safes st) =
        (st\<lparr>safes := safes st \<union> S, mines := mines st \<union> M,
            knowledge := map (reduce_sentence (S - safes st) (M - mines st)) (knowledge st)\<rparr>,
         \<not> S \<subseteq> safes st \<or> \<not> M \<subseteq> mines st)"
    by (simp add: mark_new_mines_closed M_def [symmetric] o_def reduce_sentence_def)
  show ?thesis
    by (simp add: mark_phase_def Let_def 1 2 ns nm)
qed

lemma infer_phase_closed:
  "infer_phase (st, ch) =
     (st\<lparr>knowledge := knowledge st @ infer (knowledge st)\<rparr>, ch \<or> infer (knowledge st) \<noteq> [])"
  by (simp add: infer_phase_def Let_def)

lemma update_pass_closed:
  "update_pass st =
     (let kb = filter (\<lambda>s. cells s \<noteq> {})
                 (map (reduce_sentence (new_safes st) (new_mines st)) (knowledge st))
      in (st\<lparr>safes := safes st \<union> new_safes st, mines := mines st \<union> new_mines st,
             knowledge := kb @ infer kb\<rparr>,
          new_safes st \<noteq> {} \<or> new_mines st \<noteq> {} \<or> infer kb \<noteq> []))"
  by (auto simp: update_pass_def mark_phase_closed infer_phase_closed Let_def)

section \<open>The inference loops\<close>

lemma infer_step_cases:
  "infer_step kb s1 s2 new = new \<or>
   (infer_step kb s1 s2 new = new @ [resolvent s1 s2] \<and> s1 \<noteq> s2 \<and> cells s2 \<subseteq> cells s1 \<and>
    resolvent s1 s2 \<notin> set kb \<and> resolvent s1 s2 \<notin> set new \<and> cells (resolvent s1 s2) \<noteq> {})"
  by (simp add: infer_step_def resolvent_def Let_def)

lemma infer_step_complete:
  "s1 \<noteq> s2 \<Longrightarrow> cells s2 \<subseteq> cells s1 \<Longrightarrow>
     cells (resolvent s1 s2) = {} \<or> resolvent s1 s2 \<in> set kb \<or>
     resolvent s1 s2 \<in> set (infer_step kb s1 s2 new)"
  by (simp add: infer_step_def resolvent_def Let_def)

lemma infer_step_mono: "set new \<subseteq> set (infer_step kb s1 s2 new)"
  using infer_step_cases [of kb s1 s2 new] by auto

lemma infer_inner_mono: "set new \<subseteq> set (fold (infer_step kb s1) ys new)"
proof (induction ys arbitrary: new)
  case Nil
  show ?case by simp
next
  case (Cons y ys)
  have "set new \<subseteq> set (infer_step kb s1 y new)" by (rule infer_step_mono)
  also have "\<dots> \<subseteq> set (fold (infer_step kb s1) ys (infer_step kb s1 y new))" by (rule Cons.IH)
  finally show ?case by simp
qed

lemma infer_outer_mono:
  "set new \<subseteq> set (fold (\<lambda>s1 new. fold (infer_step kb s1) kb new) xs new)"
proof (induction xs arbitrary: new)
  case Nil
  show ?case by simp
next
  case (Cons x xs)
  have "set new \<subseteq> set (fold (infer_step kb x) kb new)" by (rule infer_inner_mono)
  also have "\<dots> \<subseteq> set (fold (\<lambda>s1 new. fold (infer_step kb s1) kb new) xs (fold (infer_step kb x) kb new))"
    by (rule Cons.IH)
  finally show ?case by simp
qed

lemma infer_inner_complete:
  assumes "s2 \<in> set ys" "s1 \<noteq> s2" "cells s2 \<subseteq> cells s1"
  shows "cells (resolvent s1 s2) = {} \<or> resolvent s1 s2 \<in> set kb \<or>
         resolvent s1 s2 \<in> set (fold (infer_step kb s1) ys new)"
  using assms(1)
proof (induction ys arbitrary: new)
  case Nil
  then show ?case by simp
next
  case (Cons y ys)
  show ?case
  proof (cases "s2 = y")
    case True
    from infer_step_complete [OF assms(2,3), of kb new]
    have "cells (resolvent s1 s2) = {} \<or> resolvent s1 s2 \<in> set kb \<or>
          resolvent s1 s2 \<in> set (infer_step kb s1 y new)"
      using True by simp
    moreover have "set (infer_step kb s1 y new) \<subseteq> set (fold (infer_step kb s1) ys (infer_step kb s1 y new))"
      by (rule infer_inner_mono)
    ultimately show ?thesis by auto
  next
    case False
    with Cons.prems have "s2 \<in> set ys" by simp
    from Cons.IH [OF this, of "infer_step kb s1 y new"] show ?thesis by simp
  qed
qed

lemma infer_outer_complete:
  assumes "s1 \<in> set xs" "s2 \<in> set kb" "s1 \<noteq> s2" "cells s2 \<subseteq> cells s1"
  shows "cells (resolvent s1 s2) = {} \<or> resolvent s1 s2 \<in> set kb \<or>
         resolvent s1 s2 \<in> set (fold (\<lambda>s1 new. fold (infer_step kb s1) kb new) xs new)"
  using assms(1)
proof (induction xs arbitrary: new)
  case Nil
  then show ?case by simp
next
  case (Cons x xs)
  show ?case
  proof (cases "s1 = x")
    case True
    from infer_inner_complete [OF assms(2,3,4), of kb new]
    have "cells (resolvent s1 s2) = {} \<or> resolvent s1 s2 \<in> set kb \<or>
          resolvent s1 s2 \<in> set (fold (infer_step kb x) kb new)"
      using True by simp
    moreover have "set (fold (infer_step kb x) kb new)
        \<subseteq> set (fold (\<lambda>s1 new. fold (infer_step kb s1) kb new) xs (fold (infer_step kb x) kb new))"
      by (rule infer_outer_mono)
    ultimately show ?thesis by auto
  next
    case False
    with Cons.prems have "s1 \<in> set xs" by simp
    from Cons.IH [OF this, of "fold (infer_step kb x) kb new"] show ?thesis by simp
  qed
qed

lemma infer_complete:
  assumes "s1 \<in> set kb" "s2 \<in> set kb" "s1 \<noteq> s2" "cells s2 \<subseteq> cells s1"
  shows "cells (resolvent s1 s2) = {} \<or> resolvent s1 s2 \<in> set kb \<or> resolvent s1 s2 \<in> set (infer kb)"
  using infer_outer_complete [OF assms, of "[]"] by (simp add: infer_def)

text \<open>Every derived sentence is the difference of a pair of the knowledge base.\<close>

lemma infer_inner_sound:
  assumes "set ys \<subseteq> set kb" "s1 \<in> set kb"
    and "\<forall>s\<in>set new. P s"
    and "\<And>s2. s2 \<in> set kb \<Longrightarrow> s1 \<noteq> s2 \<Longrightarrow> cells s2 \<subseteq> cells s1 \<Longrightarrow>
           cells (resolvent s1 s2) \<noteq> {} \<Longrightarrow> resolvent s1 s2 \<notin> set kb \<Longrightarrow> P (resolvent s1 s2)"
  shows "\<forall>s\<in>set (fold (infer_step kb s1) ys new). P s"
  using assms(1,3)
proof (induction ys arbitrary: new)
  case Nil
  then show ?case by simp
next
  case (Cons y ys)
  have y: "y \<in> set kb" using Cons.prems(1) by simp
  have "\<forall>s\<in>set (infer_step kb s1 y new). P s"
  proof (cases "infer_step kb s1 y new = new")
    case True
    with Cons.prems(2) show ?thesis by simp
  next
    case False
    with infer_step_cases [of kb s1 y new]
    have c: "infer_step kb s1 y new = new @ [resolvent s1 y]" "s1 \<noteq> y" "cells y \<subseteq> cells s1"
      "resolvent s1 y \<notin> set kb" "cells (resolvent s1 y) \<noteq> {}"
      by simp_all
    from assms(4) [OF y c(2,3,5,4)] Cons.prems(2) c(1) show ?thesis by simp
  qed
  with Cons.IH [of "infer_step kb s1 y new"] Cons.prems(1) show ?case by simp
qed

lemma infer_outer_sound:
  assumes "set xs \<subseteq> set kb"
    and "\<forall>s\<in>set new. P s"
    and "\<And>s1 s2. s1 \<in> set kb \<Longrightarrow> s2 \<in> set kb \<Longrightarrow> s1 \<noteq> s2 \<Longrightarrow> cells s2 \<subseteq> cells s1 \<Longrightarrow>
           cells (resolvent s1 s2) \<noteq> {} \<Longrightarrow> resolvent s1 s2 \<notin> set kb \<Longrightarrow> P (resolvent s1 s2)"
  shows "\<forall>s\<in>set (fold (\<lambda>s1 new. fold (infer_step kb s1) kb new) xs new). P s"
  using assms(1,2)
proof (induction xs arbitrary: new)
  case Nil
  then show ?case by simp
next
  case (Cons x xs)
  have "\<forall>s\<in>set (fold (infer_step kb x) kb new). P s"
    using Cons.prems assms(3) by (intro infer_inner_sound) auto
  with Cons.IH [of "fold (infer_step kb x) kb new"] Cons.prems(1) show ?case by simp
qed

lemma infer_sound:
  assumes "s \<in> set (infer kb)"
  shows "\<exists>s1\<in>set kb. \<exists>s2\<in>set kb. s = resolvent s1 s2 \<and> s1 \<noteq> s2 \<and> cells s2 \<subseteq> cells s1 \<and>
           cells s \<noteq> {} \<and> s \<notin> set kb"
proof -
  have "\<forall>s\<in>set (fold (\<lambda>s1 new. fold (infer_step kb s1) kb new) kb []).
          \<exists>s1\<in>set kb. \<exists>s2\<in>set kb. s = resolvent s1 s2 \<and> s1 \<noteq> s2 \<and> cells s2 \<subseteq> cells s1 \<and>
           cells s \<noteq> {} \<and> s \<notin> set kb"
    by (rule infer_outer_sound) auto
  with assms show ?thesis by (simp add: infer_def)
qed

section \<open>The loop of update_knowledge, pass by pass\<close>

lemma update_knowledge_invariant:
  assumes "update_knowledge st = Some st'" and "I st"
    and step: "\<And>s. I s \<Longrightarrow> I (fst (update_pass s))"
  shows "I st'"
proof -
  have "I st \<longrightarrow> I st'"
  proof (rule update_knowledge.raw_induct [where P = "\<lambda>st st'. I st \<longrightarrow> I st'"], goal_cases)
    case (1 f st st')
    obtain st1 ch where p: "update_pass st = (st1, ch)" by (cases "update_pass st")
    show ?case
    proof
      assume "I st"
      then have i1: "I st1" using step [of st] p by simp
      show "I st'"
      proof (cases ch)
        case True
        with 1(2) p have "f st1 = Some st'" by simp
        with 1(1) i1 show ?thesis by blast
      next
        case False
        with 1(2) p have "st' = st1" by simp
        with i1 show ?thesis by simp
      qed
    qed
  next
    case 2
    show ?case by (rule assms(1))
  qed
  with assms(2) show ?thesis by simp
qed

section \<open>The three sets only grow\<close>

lemma grows_refl: "grows st st"
  by (simp add: grows_def)

lemma grows_trans: "grows a b \<Longrightarrow> grows b c \<Longrightarrow> grows a c"
  by (auto simp: grows_def)

lemma grows_mark_mine: "grows st (mark_mine c st)"
  by (auto simp: grows_def mark_mine_def)

lemma grows_mark_safe: "grows st (mark_safe c st)"
  by (auto simp: grows_def mark_safe_def)

lemma add_sentence_sets:
  "moves_made (add_sentence c n st) = insert c (moves_made st)"
  "safes (add_sentence c n st) = insert c (safes st)"
  "mines (add_sentence c n st) = mines st"
  by (simp_all add: add_sentence_def Let_def mark_safe_def)

lemma grows_add_sentence: "grows st (add_sentence c n st)"
  by (auto simp: grows_def add_sentence_sets)

lemma grows_pass: "grows st (fst (update_pass st))"
  by (auto simp: grows_def update_pass_closed Let_def)

lemma grows_update_knowledge: "update_knowledge st = Some st' \<Longrightarrow> grows st st'"
  by (erule update_knowledge_invariant [where I = "grows st"])
     (auto intro: grows_refl grows_trans grows_pass)

lemma grows_add_knowledge: "add_knowledge c n st = Some st' \<Longrightarrow> grows st st'"
  unfolding add_knowledge_def
  by (blast intro: grows_trans grows_add_sentence grows_update_knowledge)

lemma grows_step: "ai_step st st' \<Longrightarrow> grows st st'"
  by (induction rule: ai_step.induct)
     (simp_all add: grows_mark_mine grows_mark_safe grows_add_sentence grows_pass
        grows_add_knowledge grows_update_knowledge)

section \<open>Sentences stay clear of the known cells\<close>

lemma separate_mark_mine: "kb_separate st \<Longrightarrow> kb_separate (mark_mine c st)"
  by (auto simp: kb_separate_def mark_mine_def sentence_mark_mine_eq)

lemma separate_mark_safe: "kb_separate st \<Longrightarrow> kb_separate (mark_safe c st)"
  by (auto simp: kb_separate_def mark_safe_def sentence_mark_safe_eq)

lemma separate_add_sentence: "kb_separate st \<Longrightarrow> kb_separate (add_sentence c n st)"
  by (auto simp: kb_separate_def add_sentence_def Let_def mark_safe_def sentence_mark_safe_eq)

lemma separate_pass:
  assumes "kb_separate st"
  shows "kb_separate (fst (update_pass st))"
proof -
  define kb where "kb = filter (\<lambda>s. cells s \<noteq> {})
                 (map (reduce_sentence (new_safes st) (new_mines st)) (knowledge st))"
  have st': "safes (fst (update_pass st)) = safes st \<union> new_safes st"
    "mines (fst (update_pass st)) = mines st \<union> new_mines st"
    "knowledge (fst (update_pass st)) = kb @ infer kb"
    by (simp_all add: update_pass_closed Let_def kb_def)
  have kb: "cells s \<inter> (safes st \<union> new_safes st) = {} \<and> cells s \<inter> (mines st \<union> new_mines st) = {}"
    if "s \<in> set kb" for s
  proof -
    from that obtain s0 where s0: "s0 \<in> set (knowledge st)"
      "s = reduce_sentence (new_safes st) (new_mines st) s0"
      by (auto simp: kb_def)
    from s0(1) assms have "cells s0 \<inter> safes st = {}" "cells s0 \<inter> mines st = {}"
      by (simp_all add: kb_separate_def)
    then show ?thesis unfolding s0(2) reduce_sentence_def by auto
  qed
  have "cells s \<inter> (safes st \<union> new_safes st) = {} \<and> cells s \<inter> (mines st \<union> new_mines st) = {}"
    if "s \<in> set (infer kb)" for s
  proof -
    from infer_sound [OF that] obtain s1 s2 where
      s: "s1 \<in> set kb" "s = resolvent s1 s2" by blast
    from kb [OF s(1)] show ?thesis unfolding s(2) resolvent_def by auto
  qed
  with kb show ?thesis
    unfolding kb_separate_def st' by auto
qed

lemma separate_update_knowledge:
  "update_knowledge st = Some st' \<Longrightarrow> kb_separate st \<Longrightarrow> kb_separate st'"
  by (erule update_knowledge_invariant [where I = kb_separate]) (auto intro: separate_pass)

lemma separate_add_knowledge:
  "add_knowledge c n st = Some st' \<Longrightarrow> kb_separate st \<Longrightarrow> kb_separate st'"
  unfolding add_knowledge_def
  by (blast intro: separate_add_sentence separate_update_knowledge)

lemma separate_step: "ai_step st st' \<Longrightarrow> kb_separate st \<Longrightarrow> kb_separate st'"
  by (induction rule: ai_step.induct)
     (simp_all add: separate_mark_mine separate_mark_safe separate_add_sentence separate_pass
        separate_add_knowledge separate_update_knowledge)

lemma separate_init: "kb_separate (ai_init h w)"
  by (simp add: kb_separate_def ai_init_def)

text \<open>
  Claim C9. In every state reached from a new engine by the operations of
  \<open>MinesweeperAI\<close>, the cell set of every sentence of the knowledge base is disjoint from
  \<open>self.safes\<close> and from \<open>self.mines\<close>.
\<close>

theorem sentences_clear_of_known_cells:
  "rtranclp ai_step (ai_init h w) st \<Longrightarrow>
     \<forall>s\<in>set (knowledge st). cells s \<inter> safes st = {} \<and> cells s \<inter> mines st = {}"
proof -
  assume "rtranclp ai_step (ai_init h w) st"
  then have "kb_separate st"
    by (induction rule: rtranclp_induct) (auto intro: separate_init separate_step)
  then show ?thesis by (simp add: kb_separate_def)
qed

theorem sentences_clear_of_known_cells_witness:
  "rtranclp ai_step (ai_init 3 3) observed_3x3 \<and>
   knowledge observed_3x3 = [\<lparr>cells = {(0, 1), (1, 0), (1, 1)}, count = 1\<rparr>] \<and>
   {(0, 1), (1, 0), (1, 1)} \<inter> safes observed_3x3 = {} \<and>
   {(0, 1), (1, 0), (1, 1)} \<inter> mines observed_3x3 = {}"
proof -
  have a: "add_knowledge (0, 0) 1 (ai_init 3 3) = Some observed_3x3"
    by code_simp
  have r: "rtranclp ai_step (ai_init 3 3) observed_3x3"
    by (rule r_into_rtranclp) (rule step_add_knowledge [OF a])
  have k: "knowledge observed_3x3 = [\<lparr>cells = {(0, 1), (1, 0), (1, 1)}, count = 1\<rparr>]"
    by (simp add: observed_3x3_def)
  from sentences_clear_of_known_cells [OF r] r k show ?thesis by simp
qed

text \<open>
  The three sets do intersect. After \<open>add_knowledge((0, 0), 1)\<close> on a new 3 by 3 engine the
  cell \<open>(0, 0)\<close> is in \<open>moves_made\<close> and in \<open>safes\<close>; after \<open>mark_safe((2, 2))\<close> and
  \<open>mark_mine((2, 2))\<close> the cell \<open>(2, 2)\<close> is in \<open>safes\<close> and in \<open>mines\<close>.
\<close>

theorem known_sets_intersect:
  "add_knowledge (0, 0) 1 (ai_init 3 3) = Some observed_3x3 \<and>
   moves_made observed_3x3 \<inter> safes observed_3x3 = {(0, 0)} \<and>
   safes (mark_mine (2, 2) (mark_safe (2, 2) (ai_init 3 3))) \<inter>
     mines (mark_mine (2, 2) (mark_safe (2, 2) (ai_init 3 3))) = {(2, 2)}"
  by code_simp

text \<open>
  Claim C5, amended. Across any sequence of operations the sets \<open>moves_made\<close>, \<open>mines\<close>
  and \<open>safes\<close> only grow. (They are not disjoint: \<open>add_knowledge\<close> puts the revealed cell
  into both \<open>moves_made\<close> and \<open>safes\<close>, and neither \<open>mark_safe\<close> nor \<open>mark_mine\<close> looks at
  the other set.)
\<close>

theorem known_sets_only_grow:
  "rtranclp ai_step st st' \<Longrightarrow>
     moves_made st \<subseteq> moves_made st' \<and> mines st \<subseteq> mines st' \<and> safes st \<subseteq> safes st'"
proof -
  assume "rtranclp ai_step st st'"
  then have "grows st st'"
    by (induction rule: rtranclp_induct) (auto intro: grows_refl grows_trans grows_step)
  then show ?thesis by (simp add: grows_def)
qed

theorem known_sets_only_grow_witness:
  "rtranclp ai_step observed_3x3 (mark_mine (1, 1) observed_3x3) \<and>
   moves_made observed_3x3 \<subseteq> moves_made (mark_mine (1, 1) observed_3x3) \<and>
   mines observed_3x3 \<subseteq> mines (mark_mine (1, 1) observed_3x3) \<and>
   safes observed_3x3 \<subseteq> safes (mark_mine (1, 1) observed_3x3)"
proof -
  have r: "rtranclp ai_step observed_3x3 (mark_mine (1, 1) observed_3x3)"
    by (rule r_into_rtranclp) (rule step_mark_mine)
  from known_sets_only_grow [OF r] r show ?thesis by blast
qed

text \<open>
  \<open>add_knowledge\<close> accepts a cell outside the grid and a cell that has been played: on a
  new 3 by 3 engine \<open>add_knowledge((5, 5), 0)\<close> returns with \<open>(5, 5)\<close> in \<open>moves_made\<close> and
  \<open>safes\<close>, and a second observation of \<open>(0, 0)\<close> with another count returns with a second
  sentence over the same cells.
\<close>

theorem add_knowledge_accepts_any_cell:
  "add_knowledge (5, 5) 0 (ai_init 3 3) =
     Some \<lparr>height = 3, width = 3, moves_made = {(5, 5)}, mines = {}, safes = {(5, 5)},
           knowledge = []\<rparr> \<and>
   (0, 0) \<in> moves_made observed_3x3 \<and>
   add_knowledge (0, 0) 2 observed_3x3 = Some observed_twice_3x3"
  by code_simp

text \<open>
  Claim C7, amended. \<open>add_knowledge\<close> checks neither that the cell is new nor that it is
  inside the grid and signals nothing: for every cell, count and state, steps 1 to 4 put
  the cell into \<open>moves_made\<close> and \<open>safes\<close>, and whenever the call returns, the state it
  returns has the cell in both sets.
\<close>

theorem add_knowledge_unchecked:
  "c \<in> moves_made (add_sentence c n st) \<and> c \<in> safes (add_sentence c n st) \<and>
   (\<forall>st'. add_knowledge c n st = Some st' \<longrightarrow> c \<in> moves_made st' \<and> c \<in> safes st')"
proof -
  have a: "c \<in> moves_made (add_sentence c n st)" "c \<in> safes (add_sentence c n st)"
    by (simp_all add: add_sentence_sets)
  have "c \<in> moves_made st' \<and> c \<in> safes st'" if "add_knowledge c n st = Some st'" for st'
  proof -
    from that have "grows (add_sentence c n st) st'"
      unfolding add_knowledge_def by (rule grows_update_knowledge)
    with a show ?thesis by (auto simp: grows_def)
  qed
  with a show ?thesis by blast
qed

theorem add_knowledge_unchecked_witness:
  "add_knowledge (-1, 7) 0 observed_3x3 =
     Some (observed_3x3\<lparr>moves_made := {(0, 0), (-1, 7)}, safes := {(0, 0), (-1, 7)}\<rparr>) \<and>
   (-1, 7) \<in> moves_made (observed_3x3\<lparr>moves_made := {(0, 0), (-1, 7)}, safes := {(0, 0), (-1, 7)}\<rparr>) \<and>
   (-1, 7) \<in> safes (observed_3x3\<lparr>moves_made := {(0, 0), (-1, 7)}, safes := {(0, 0), (-1, 7)}\<rparr>)"
proof -
  have a: "add_knowledge (-1, 7) 0 observed_3x3 =
     Some (observed_3x3\<lparr>moves_made := {(0, 0), (-1, 7)}, safes := {(0, 0), (-1, 7)}\<rparr>)"
    by code_simp
  from add_knowledge_unchecked [of "(-1, 7)" 0 observed_3x3] a show ?thesis by blast
qed

text \<open>
  Sentences taken from the knowledge base before a pass need not survive its marking
  loops. With \<open>{(0, 0), (0, 1)} = 2\<close> and \<open>{(0, 0)} = 1\<close> in the knowledge base, one pass
  marks both cells as mines and removes both sentences, which are then empty; the
  difference \<open>{(0, 1)} = 1\<close> is not in the knowledge base after the pass, nor when
  \<open>update_knowledge\<close> returns.
\<close>

theorem subset_soundness_before_marking:
  "\<lparr>cells = {(0, 0), (0, 1)}, count = 2\<rparr> \<in> set (knowledge decided_pair) \<and>
   \<lparr>cells = {(0, 0)}, count = 1\<rparr> \<in> set (knowledge decided_pair) \<and>
   ({(0, 0)} :: cell set) \<subseteq> {(0, 0), (0, 1)} \<and>
   ({(0, 0), (0, 1)} :: cell set) - {(0, 0)} = {(0, 1)} \<and>
   \<lparr>cells = {(0, 1)}, count = 1\<rparr> \<notin> set (knowledge decided_pair) \<and>
   update_pass decided_pair =
     (\<lparr>height = 3, width = 3, moves_made = {}, mines = {(0, 0), (0, 1)}, safes = {},
       knowledge = []\<rparr>, True) \<and>
   \<lparr>cells = {(0, 1)}, count = 1\<rparr> \<notin> set (knowledge (fst (update_pass decided_pair))) \<and>
   update_knowledge decided_pair =
     Some \<lparr>height = 3, width = 3, moves_made = {}, mines = {(0, 0), (0, 1)}, safes = {},
           knowledge = []\<rparr>"
  by code_simp

text \<open>
  Claim C2, amended. Let \<open>A\<close> and \<open>B\<close> be two sentences, different by value, that are in the
  knowledge base when the inference loops of a pass begin (after the marking loops and the
  removal of the empty sentences), with the cells of \<open>B\<close> a subset of the cells of \<open>A\<close>.
  After the pass the knowledge base contains the sentence with cells
  \<open>A.cells - B.cells\<close> and count \<open>A.count - B.count\<close>, unless that cell set is empty.
\<close>

theorem subset_soundness:
  assumes "A \<in> set (knowledge (fst (mark_phase st)))"
    and "B \<in> set (knowledge (fst (mark_phase st)))"
    and "A \<noteq> B" and "cells B \<subseteq> cells A"
  shows "cells A - cells B = {} \<or>
         \<lparr>cells = cells A - cells B, count = count A - count B\<rparr>
           \<in> set (knowledge (fst (update_pass st)))"
proof -
  obtain st1 ch where m: "mark_phase st = (st1, ch)" by (cases "mark_phase st")
  have k: "knowledge (fst (update_pass st)) = knowledge st1 @ infer (knowledge st1)"
    by (simp add: update_pass_def m infer_phase_closed)
  from infer_complete [of A "knowledge st1" B] assms m
  show ?thesis by (auto simp: k resolvent_def)
qed

theorem subset_soundness_witness:
  "\<lparr>cells = {(0, 0), (0, 1), (0, 2)}, count = 1\<rparr> \<in> set (knowledge (fst (mark_phase scenario3))) \<and>
   \<lparr>cells = {(0, 0), (0, 1)}, count = 1\<rparr> \<in> set (knowledge (fst (mark_phase scenario3))) \<and>
   ({(0, 0), (0, 1)} :: cell set) \<subseteq> {(0, 0), (0, 1), (0, 2)} \<and>
   \<lparr>cells = {(0, 2)}, count = 0\<rparr> \<in> set (knowledge (fst (update_pass scenario3)))"
proof -
  let ?A = "\<lparr>cells = {(0, 0), (0, 1), (0, 2)}, count = 1\<rparr> :: sentence"
  let ?B = "\<lparr>cells = {(0, 0), (0, 1)}, count = 1\<rparr> :: sentence"
  have h1: "?A \<in> set (knowledge (fst (mark_phase scenario3)))" by code_simp
  have h2: "?B \<in> set (knowledge (fst (mark_phase scenario3)))" by code_simp
  have h3: "?A \<noteq> ?B" by code_simp
  have h4: "cells ?B \<subseteq> cells ?A" by simp
  have e: "cells ?A - cells ?B = {(0, 2)}" by code_simp
  from subset_soundness [OF h1 h2 h3 h4] h1 h2 show ?thesis
    unfolding e by simp
qed

section \<open>Known mines in the neighbourhood\<close>

lemma add_sentence_knowledge:
  "knowledge (add_sentence c n st) =
     (let u = neighbors (height st) (width st) c - insert c (safes st) - mines st
      in map (sentence_mark_safe c) (knowledge st) @
         (if u \<noteq> {} then [\<lparr>cells = u, count = n\<rparr>] else []))"
proof -
  have "Set.filter (\<lambda>n. n \<in> M) (A - S - M) = {}" for A S M :: "cell set"
    by auto
  then show ?thesis
    by (simp add: add_sentence_def Let_def mark_safe_def)
qed

text \<open>
  Claim C1, the code at the scenario of the claim. The 3 by 3 engine knows that \<open>(1, 0)\<close>
  is a mine and that \<open>(1, 1)\<close> is safe, so the undetermined neighbourhood of \<open>(0, 0)\<close> is
  \<open>{(0, 1)}\<close>. \<open>add_knowledge((0, 0), 1)\<close> appends the sentence \<open>{(0, 1)} = 1\<close>: the known
  mine \<open>(1, 0)\<close> is not subtracted from the count, and propagation then marks \<open>(0, 1)\<close> as
  a mine, not as safe.
\<close>

theorem known_mine_not_subtracted:
  "knowledge (add_sentence (0, 0) 1 known_mine_3x3) = [\<lparr>cells = {(0, 1)}, count = 1\<rparr>] \<and>
   add_knowledge (0, 0) 1 known_mine_3x3 =
     Some \<lparr>height = 3, width = 3, moves_made = {(0, 0)}, mines = {(0, 1), (1, 0)},
           safes = {(0, 0), (1, 1)}, knowledge = []\<rparr>"
  by code_simp

text \<open>
  Claim C4, the code under a truthful oracle. The board \<open>game_2x3\<close> has its mines at
  \<open>(0, 1)\<close> and \<open>(1, 1)\<close>. Revealing \<open>(0, 0)\<close>, \<open>(1, 0)\<close> and \<open>(0, 2)\<close> with the counts that
  \<open>nearby_mines\<close> reports leaves the sentence \<open>{(1, 2)} = 2\<close> in the knowledge base, whose
  count exceeds its number of cells.
\<close>

theorem count_exceeds_cells:
  "{(0, 0), (1, 0), (0, 2)} \<inter> ms_mines game_2x3 = {} \<and>
   nearby_mines game_2x3 (0, 0) = 2 \<and> nearby_mines game_2x3 (1, 0) = 2 \<and>
   nearby_mines game_2x3 (0, 2) = 2 \<and>
   Option.bind
     (Option.bind (add_knowledge (0, 0) (nearby_mines game_2x3 (0, 0)) (ai_init 2 3))
        (add_knowledge (1, 0) (nearby_mines game_2x3 (1, 0))))
     (add_knowledge (0, 2) (nearby_mines game_2x3 (0, 2))) =
   Some \<lparr>height = 2, width = 3, moves_made = {(0, 0), (1, 0), (0, 2)},
         mines = {(0, 1), (1, 1)}, safes = {(0, 0), (1, 0), (0, 2)},
         knowledge = [\<lparr>cells = {(1, 2)}, count = 2\<rparr>]\<rparr>"
  by code_simp

section \<open>Termination of update_knowledge\<close>

lemma loops_shape:
  assumes "loops st" "s \<in> set (knowledge st)"
  shows "(cells s = {(0, 1), (0, 3)} \<and> (count s = 4 \<or> count s = 7)) \<or>
         ((cells s = {(0, 1)} \<or> cells s = {(0, 3)}) \<and> count s mod 3 = 2)"
  using assms by (simp add: loops_def)

lemma loops_known:
  assumes "loops st" "s \<in> set (knowledge st)"
  shows "known_safes s = {}" "known_mines s = {}" "cells s \<noteq> {}"
proof -
  from loops_shape [OF assms] show "known_safes s = {}"
    by (auto simp: known_safes_def)
  from loops_shape [OF assms] show "known_mines s = {}"
    by (auto simp: known_mines_def)
  from loops_shape [OF assms] show "cells s \<noteq> {}" by auto
qed

lemma loops_pass_closed:
  assumes "loops st"
  shows "update_pass st =
           (st\<lparr>safes := safes st, mines := mines st,
               knowledge := knowledge st @ infer (knowledge st)\<rparr>,
            infer (knowledge st) \<noteq> [])"
proof -
  have "collect_safes (knowledge st) = {}" "collect_mines (knowledge st) = {}"
    using loops_known(1,2) [OF assms] by (simp_all add: collect_safes_eq collect_mines_eq)
  then have e: "new_safes st = {}" "new_mines st = {}"
    by (simp_all add: new_safes_def new_mines_def)
  have r: "reduce_sentence {} {} = (\<lambda>s. s)"
    by (rule ext) (simp add: reduce_sentence_def)
  have "filter (\<lambda>s. cells s \<noteq> {}) (knowledge st) = knowledge st"
    using loops_known(3) [OF assms] by (simp add: filter_id_conv)
  then show ?thesis
    by (simp add: update_pass_closed e r Let_def)
qed

lemma loops_infer_shape:
  assumes "loops st" "n \<in> set (infer (knowledge st))"
  shows "(cells n = {(0, 1)} \<or> cells n = {(0, 3)}) \<and> count n mod 3 = 2"
proof -
  from infer_sound [OF assms(2)] obtain s1 s2 where
    s: "s1 \<in> set (knowledge st)" "s2 \<in> set (knowledge st)" "n = resolvent s1 s2"
       "cells s2 \<subseteq> cells s1" "cells n \<noteq> {}" by blast
  note h1 = loops_shape [OF assms(1) s(1)] and h2 = loops_shape [OF assms(1) s(2)]
  have c: "cells n = cells s1 - cells s2" "count n = count s1 - count s2"
    by (simp_all add: s(3) resolvent_def)
  from h1 show ?thesis
  proof
    assume x: "cells s1 = {(0, 1), (0, 3)} \<and> (count s1 = 4 \<or> count s1 = 7)"
    from h2 show ?thesis
    proof
      assume "cells s2 = {(0, 1), (0, 3)} \<and> (count s2 = 4 \<or> count s2 = 7)"
      with x s(5) c(1) show ?thesis by simp
    next
      assume y: "(cells s2 = {(0, 1)} \<or> cells s2 = {(0, 3)}) \<and> count s2 mod 3 = 2"
      then have "cells n = {(0, 1)} \<or> cells n = {(0, 3)}"
        using x unfolding c(1) by auto
      moreover from x y have "count s1 = 4 \<or> count s1 = 7" "count s2 mod 3 = 2"
        by simp_all
      then have "count n mod 3 = 2"
        unfolding c(2) by presburger
      ultimately show ?thesis by simp
    qed
  next
    assume x: "(cells s1 = {(0, 1)} \<or> cells s1 = {(0, 3)}) \<and> count s1 mod 3 = 2"
    with h2 s(4) have "cells s2 = cells s1" by auto
    with s(5) c(1) show ?thesis by simp
  qed
qed

lemma loops_infer_nonempty:
  assumes "loops st"
  shows "infer (knowledge st) \<noteq> []"
proof
  assume e: "infer (knowledge st) = []"
  let ?kb = "knowledge st"
  let ?X4 = "\<lparr>cells = {(0, 1), (0, 3)}, count = 4\<rparr> :: sentence"
  let ?X7 = "\<lparr>cells = {(0, 1), (0, 3)}, count = 7\<rparr> :: sentence"
  from assms have x4: "?X4 \<in> set ?kb" and x7: "?X7 \<in> set ?kb"
    by (simp_all add: loops_def)
  define C where "C = count ` {s \<in> set ?kb. cells s = {(0, 1)}}"
  have "finite C" by (simp add: C_def)
  moreover from assms have "C \<noteq> {}" by (auto simp: loops_def C_def)
  ultimately have "Min C \<in> C" and least: "\<And>c. c \<in> C \<Longrightarrow> Min C \<le> c"
    by (simp_all add: Min_in)
  then obtain sa where sa: "sa \<in> set ?kb" "cells sa = {(0, 1)}" "count sa = Min C"
    by (auto simp: C_def)
  have "?X7 \<noteq> sa" using sa(2) by auto
  moreover have "cells sa \<subseteq> cells ?X7" using sa(2) by simp
  ultimately have "cells (resolvent ?X7 sa) = {} \<or> resolvent ?X7 sa \<in> set ?kb"
    using infer_complete [OF x7 sa(1)] e by simp
  moreover have rb: "resolvent ?X7 sa = \<lparr>cells = {(0, 3)}, count = 7 - Min C\<rparr>"
    using sa(2,3) by (auto simp: resolvent_def)
  ultimately have b: "\<lparr>cells = {(0, 3)}, count = 7 - Min C\<rparr> \<in> set ?kb" by simp
  let ?B = "\<lparr>cells = {(0, 3)}, count = 7 - Min C\<rparr> :: sentence"
  have "?X4 \<noteq> ?B" by auto
  moreover have "cells ?B \<subseteq> cells ?X4" by simp
  ultimately have "cells (resolvent ?X4 ?B) = {} \<or> resolvent ?X4 ?B \<in> set ?kb"
    using infer_complete [OF x4 b] e by simp
  moreover have "resolvent ?X4 ?B = \<lparr>cells = {(0, 1)}, count = Min C - 3\<rparr>"
    by (auto simp: resolvent_def)
  ultimately have "\<lparr>cells = {(0, 1)}, count = Min C - 3\<rparr> \<in> set ?kb" by simp
  then have "Min C - 3 \<in> C" by (force simp: C_def)
  from least [OF this] show False by simp
qed

lemma loops_pass:
  assumes "loops st"
  shows "snd (update_pass st)" "loops (fst (update_pass st))"
proof -
  show "snd (update_pass st)"
    using loops_infer_nonempty [OF assms] by (simp add: loops_pass_closed [OF assms])
  have k: "knowledge (fst (update_pass st)) = knowledge st @ infer (knowledge st)"
    by (simp add: loops_pass_closed [OF assms])
  show "loops (fst (update_pass st))"
    unfolding loops_def k
    using assms loops_infer_shape [OF assms] by (auto simp: loops_def)
qed

lemma loops_forever:
  assumes "loops st"
  shows "update_knowledge st = None"
proof (rule ccontr)
  assume "update_knowledge st \<noteq> None"
  then obtain y where y: "update_knowledge st = Some y" by auto
  have "\<not> loops st"
  proof (rule update_knowledge.raw_induct [where P = "\<lambda>st y. \<not> loops st" and st = st and y = y],
      goal_cases)
    case (1 f st y)
    show ?case
    proof
      assume l: "loops st"
      obtain st1 ch where p: "update_pass st = (st1, ch)" by (cases "update_pass st")
      from loops_pass [OF l] p have "ch" "loops st1" by simp_all
      with 1(2) p have "f st1 = Some y" by simp
      from 1(1) [OF this] \<open>loops st1\<close> show False by simp
    qed
  next
    case 2
    show ?case by (rule y)
  qed
  with assms show False by simp
qed

lemma loops_looping_1x4: "loops looping_1x4"
  by (simp add: loops_def looping_1x4_def two_observations_1x4_def)

text \<open>
  \<open>update_knowledge\<close> does not return on every knowledge base. On a 1 by 4 engine the
  calls \<open>add_knowledge((0, 0), 2)\<close> and \<open>add_knowledge((0, 2), 4)\<close> return; a third call
  \<open>add_knowledge((0, 2), 7)\<close> adds the sentence \<open>{(0, 1), (0, 3)} = 7\<close>, and from then on
  every pass derives a sentence with a count not seen before, so the loop never ends.
\<close>

theorem update_knowledge_loops:
  "Option.bind (add_knowledge (0, 0) 2 (ai_init 1 4)) (add_knowledge (0, 2) 4) =
     Some two_observations_1x4 \<and>
   add_sentence (0, 2) 7 two_observations_1x4 = looping_1x4 \<and>
   update_knowledge looping_1x4 = None \<and>
   add_knowledge (0, 2) 7 two_observations_1x4 = None"
proof -
  have 1: "Option.bind (add_knowledge (0, 0) 2 (ai_init 1 4)) (add_knowledge (0, 2) 4) =
     Some two_observations_1x4" by code_simp
  have 2: "add_sentence (0, 2) 7 two_observations_1x4 = looping_1x4" by code_simp
  have 3: "update_knowledge looping_1x4 = None"
    by (rule loops_forever [OF loops_looping_1x4])
  from 1 2 3 show ?thesis by (simp add: add_knowledge_def)
qed

lemma sentence_eqI: "cells s = cells t \<Longrightarrow> count s = count t \<Longrightarrow> s = (t :: sentence)"
  by simp

lemma known_safes_no_mine:
  assumes "finite (cells s)" "count s = int (card (cells s \<inter> M))"
  shows "known_safes s \<inter> M = {}"
proof (cases "count s = 0")
  case True
  with assms have "card (cells s \<inter> M) = 0" by simp
  with assms(1) have "cells s \<inter> M = {}" by simp
  with True show ?thesis by (simp add: known_safes_def)
next
  case False
  then show ?thesis by (simp add: known_safes_def)
qed

lemma known_mines_all_mines:
  assumes "finite (cells s)" "count s = int (card (cells s \<inter> M))"
  shows "known_mines s \<subseteq> M"
proof (cases "int (card (cells s)) = count s \<and> count s > 0")
  case True
  with assms have "card (cells s \<inter> M) = card (cells s)" by simp
  with assms(1) have "cells s \<inter> M = cells s"
    by (intro card_subset_eq) auto
  then have "cells s \<subseteq> M" by auto
  with True show ?thesis by (simp add: known_mines_def)
next
  case False
  then show ?thesis by (auto simp: known_mines_def)
qed

lemma known_subset: "known_safes s \<subseteq> cells s" "known_mines s \<subseteq> cells s"
  by (auto simp: known_safes_def known_mines_def)

lemma consistent_new:
  assumes "consistent U M st"
  shows "new_safes st \<subseteq> U - safes st" "new_safes st \<inter> M = {}"
    "new_mines st \<subseteq> U - mines st" "new_mines st \<subseteq> M"
proof -
  from assms have U: "finite U" and kb: "\<And>s. s \<in> set (knowledge st) \<Longrightarrow>
      cells s \<subseteq> U \<and> count s = int (card (cells s \<inter> M))"
    by (auto simp: consistent_def)
  have fin: "finite (cells s)" if "s \<in> set (knowledge st)" for s
    using kb [OF that] U by (auto intro: finite_subset)
  have cs: "collect_safes (knowledge st) \<subseteq> U"
    using kb known_subset(1) by (fastforce simp: collect_safes_eq)
  have cm: "collect_mines (knowledge st) \<subseteq> U"
    using kb known_subset(2) by (fastforce simp: collect_mines_eq)
  from cs U have fs: "finite (collect_safes (knowledge st))" by (rule finite_subset)
  from cm U have fm: "finite (collect_mines (knowledge st))" by (rule finite_subset)
  have ns: "new_safes st = collect_safes (knowledge st) - safes st"
    by (simp add: new_safes_def fs)
  have nm: "new_mines st = collect_mines (knowledge st) - mines st"
    by (simp add: new_mines_def fm)
  show "new_safes st \<subseteq> U - safes st" using cs ns by auto
  show "new_mines st \<subseteq> U - mines st" using cm nm by auto
  have "collect_safes (knowledge st) \<inter> M = {}"
    using known_safes_no_mine [OF fin] kb by (fastforce simp: collect_safes_eq)
  then show "new_safes st \<inter> M = {}" using ns by auto
  have "collect_mines (knowledge st) \<subseteq> M"
    using known_mines_all_mines [OF fin] kb by (fastforce simp: collect_mines_eq)
  then show "new_mines st \<subseteq> M" using nm by auto
qed

lemma reduce_consistent:
  assumes "finite (cells s)" "count s = int (card (cells s \<inter> M))"
    and "S \<inter> M = {}" "N \<subseteq> M"
  shows "count (reduce_sentence S N s) = int (card (cells (reduce_sentence S N s) \<inter> M))"
proof -
  have split: "cells s \<inter> M = ((cells s - S - N) \<inter> M) \<union> ((cells s - S) \<inter> N)"
    using assms(3,4) by auto
  have disj: "((cells s - S - N) \<inter> M) \<inter> ((cells s - S) \<inter> N) = {}" by auto
  have "card (cells s \<inter> M) = card ((cells s - S - N) \<inter> M) + card ((cells s - S) \<inter> N)"
    using assms(1) disj
    by (subst split, subst card_Un_disjoint) auto
  with assms(2) show ?thesis by (simp add: reduce_sentence_def)
qed

lemma resolvent_consistent:
  assumes "finite (cells s1)" "count s1 = int (card (cells s1 \<inter> M))"
    "count s2 = int (card (cells s2 \<inter> M))" "cells s2 \<subseteq> cells s1"
  shows "count (resolvent s1 s2) = int (card (cells (resolvent s1 s2) \<inter> M))"
proof -
  have e: "(cells s1 - cells s2) \<inter> M = (cells s1 \<inter> M) - (cells s2 \<inter> M)" by auto
  have sub: "cells s2 \<inter> M \<subseteq> cells s1 \<inter> M" using assms(4) by auto
  have fin: "finite (cells s1 \<inter> M)" "finite (cells s2 \<inter> M)"
    using assms(1,4) by (auto intro: finite_subset)
  have "card ((cells s1 - cells s2) \<inter> M) = card (cells s1 \<inter> M) - card (cells s2 \<inter> M)"
    unfolding e using fin sub by (simp add: card_Diff_subset)
  moreover have "card (cells s2 \<inter> M) \<le> card (cells s1 \<inter> M)"
    using fin sub by (simp add: card_mono)
  ultimately show ?thesis using assms(2,3) by (simp add: resolvent_def)
qed


lemma pass_consistent:
  assumes "consistent U M st"
  shows "consistent U M (fst (update_pass st))"
proof -
  from assms have U: "finite U" and kb0: "\<And>s. s \<in> set (knowledge st) \<Longrightarrow>
      cells s \<subseteq> U \<and> count s = int (card (cells s \<inter> M))"
    by (auto simp: consistent_def)
  define kb where "kb = filter (\<lambda>s. cells s \<noteq> {})
                 (map (reduce_sentence (new_safes st) (new_mines st)) (knowledge st))"
  have k: "knowledge (fst (update_pass st)) = kb @ infer kb"
    by (simp add: update_pass_closed Let_def kb_def)
  have kb: "cells s \<subseteq> U \<and> count s = int (card (cells s \<inter> M))" if "s \<in> set kb" for s
  proof -
    from that obtain s0 where s0: "s0 \<in> set (knowledge st)"
      "s = reduce_sentence (new_safes st) (new_mines st) s0"
      by (auto simp: kb_def)
    from kb0 [OF s0(1)] U have f: "finite (cells s0)" by (auto intro: finite_subset)
    have "count s = int (card (cells s \<inter> M))"
      unfolding s0(2) using f kb0 [OF s0(1)] consistent_new(2,4) [OF assms]
      by (intro reduce_consistent) auto
    moreover have "cells s \<subseteq> U"
      unfolding s0(2) using kb0 [OF s0(1)] by (auto simp: reduce_sentence_def)
    ultimately show ?thesis by simp
  qed
  have "cells s \<subseteq> U \<and> count s = int (card (cells s \<inter> M))" if "s \<in> set (infer kb)" for s
  proof -
    from infer_sound [OF that] obtain s1 s2 where
      s: "s1 \<in> set kb" "s2 \<in> set kb" "s = resolvent s1 s2" "cells s2 \<subseteq> cells s1" by blast
    from kb [OF s(1)] U have f: "finite (cells s1)" by (auto intro: finite_subset)
    have "count s = int (card (cells s \<inter> M))"
      unfolding s(3) using f kb [OF s(1)] kb [OF s(2)] s(4)
      by (intro resolvent_consistent) auto
    moreover have "cells s \<subseteq> U"
      unfolding s(3) using kb [OF s(1)] by (auto simp: resolvent_def)
    ultimately show ?thesis by simp
  qed
  with kb U show ?thesis
    unfolding consistent_def k by auto
qed

lemma pass_decreases:
  assumes "consistent U M st" and "snd (update_pass st)"
  shows "unknown_cells U (fst (update_pass st)) < unknown_cells U st \<or>
         (unknown_cells U (fst (update_pass st)) = unknown_cells U st \<and>
          absent_sets U (fst (update_pass st)) < absent_sets U st)"
proof -
  from assms have U: "finite U" and kb0: "\<And>s. s \<in> set (knowledge st) \<Longrightarrow>
      cells s \<subseteq> U \<and> count s = int (card (cells s \<inter> M))"
    by (auto simp: consistent_def)
  define kb where "kb = filter (\<lambda>s. cells s \<noteq> {})
                 (map (reduce_sentence (new_safes st) (new_mines st)) (knowledge st))"
  have k: "knowledge (fst (update_pass st)) = kb @ infer kb"
    and sf: "safes (fst (update_pass st)) = safes st \<union> new_safes st"
    and mn: "mines (fst (update_pass st)) = mines st \<union> new_mines st"
    and fl: "snd (update_pass st) = (new_safes st \<noteq> {} \<or> new_mines st \<noteq> {} \<or> infer kb \<noteq> [])"
    by (simp_all add: update_pass_closed Let_def kb_def)
  note new = consistent_new [OF assms(1)]
  have s_le: "card (U - (safes st \<union> new_safes st)) \<le> card (U - safes st)"
    using U by (intro card_mono) auto
  have m_le: "card (U - (mines st \<union> new_mines st)) \<le> card (U - mines st)"
    using U by (intro card_mono) auto
  show ?thesis
  proof (cases "new_safes st \<noteq> {} \<or> new_mines st \<noteq> {}")
    case True
    then show ?thesis
    proof
      assume "new_safes st \<noteq> {}"
      with new(1) have "U - (safes st \<union> new_safes st) \<subset> U - safes st" by auto
      with U have "card (U - (safes st \<union> new_safes st)) < card (U - safes st)"
        by (intro psubset_card_mono) auto
      with m_le show ?thesis by (simp add: unknown_cells_def sf mn)
    next
      assume "new_mines st \<noteq> {}"
      with new(3) have "U - (mines st \<union> new_mines st) \<subset> U - mines st" by auto
      with U have "card (U - (mines st \<union> new_mines st)) < card (U - mines st)"
        by (intro psubset_card_mono) auto
      with s_le show ?thesis by (simp add: unknown_cells_def sf mn)
    qed
  next
    case False
    then have e: "new_safes st = {}" "new_mines st = {}" by simp_all
    have r: "reduce_sentence {} {} = (\<lambda>s. s)"
      by (rule ext) (simp add: reduce_sentence_def)
    have kb': "kb = filter (\<lambda>s. cells s \<noteq> {}) (knowledge st)"
      by (simp add: kb_def e r)
    from assms(2) fl e obtain n where n: "n \<in> set (infer kb)"
      by (cases "infer kb") auto
    from infer_sound [OF n] have n1: "cells n \<noteq> {}" "n \<notin> set kb" by auto
    from pass_consistent [OF assms(1)] n
    have n2: "cells n \<subseteq> U" "count n = int (card (cells n \<inter> M))"
      by (auto simp: consistent_def k)
    have notin: "cells n \<notin> cells ` set (knowledge st)"
    proof
      assume "cells n \<in> cells ` set (knowledge st)"
      then obtain s where s: "s \<in> set (knowledge st)" "cells s = cells n" by auto
      with kb0 [OF s(1)] n2(2) have "count s = count n" by simp
      with s(2) have "s = n" by (intro sentence_eqI)
      with s(1) n1(1) have "n \<in> set kb" by (simp add: kb')
      with n1(2) show False by simp
    qed
    define old_absent where "old_absent = Pow U - {{}} - cells ` set (knowledge st)"
    define new_absent where "new_absent = Pow U - {{}} - cells ` set (kb @ infer kb)"
    have in_new: "cells n \<notin> new_absent" using n by (simp add: new_absent_def)
    have sub: "new_absent \<subseteq> old_absent"
      by (auto simp: kb' new_absent_def old_absent_def)
    have in_old: "cells n \<in> old_absent"
      using n1(1) n2(1) notin by (simp add: old_absent_def)
    from in_new in_old have "new_absent \<noteq> old_absent" by metis
    with sub have "new_absent \<subset> old_absent" by (rule psubsetI)
    then have "Pow U - {{}} - cells ` set (kb @ infer kb) \<subset> Pow U - {{}} - cells ` set (knowledge st)"
      by (simp only: new_absent_def old_absent_def)
    moreover have "finite (Pow U - {{}} - cells ` set (knowledge st))" using U by simp
    ultimately have "absent_sets U (fst (update_pass st)) < absent_sets U st"
      unfolding absent_sets_def k by (intro psubset_card_mono)
    then show ?thesis by (simp add: unknown_cells_def sf mn e)
  qed
qed

lemma consistent_terminates:
  "consistent U M st \<Longrightarrow> \<exists>st'. update_knowledge st = Some st'"
proof (induction st rule: wf_induct_rule [OF wf_measures [of "[unknown_cells U, absent_sets U]"]])
  case (1 st)
  obtain st1 ch where p: "update_pass st = (st1, ch)" by (cases "update_pass st")
  show ?case
  proof (cases ch)
    case False
    with p show ?thesis by (subst update_knowledge.simps) simp
  next
    case True
    from pass_consistent [OF 1(2)] p have c: "consistent U M st1" by simp
    from pass_decreases [OF 1(2)] p True
    have "(st1, st) \<in> measures [unknown_cells U, absent_sets U]" by simp
    from 1(1) [OF this c] obtain st' where "update_knowledge st1 = Some st'" ..
    with p True show ?thesis by (subst update_knowledge.simps) simp
  qed
qed

text \<open>
  Claim C3, amended. \<open>update_knowledge\<close> returns, after finitely many passes, for every
  state whose knowledge base is consistent with some placement \<open>M\<close> of mines: every
  sentence has finitely many cells and its count is the number of its cells in \<open>M\<close>.
  The sets \<open>safes\<close>, \<open>mines\<close> and \<open>moves_made\<close> and the grid are arbitrary.
\<close>

theorem update_knowledge_terminates:
  assumes "\<forall>s\<in>set (knowledge st). finite (cells s) \<and> count s = int (card (cells s \<inter> M))"
  shows "\<exists>st'. update_knowledge st = Some st'"
proof -
  have "consistent (\<Union> (cells ` set (knowledge st))) M st"
    using assms by (auto simp: consistent_def)
  then show ?thesis by (rule consistent_terminates)
qed

theorem update_knowledge_terminates_witness:
  "knowledge scenario3 =
     [\<lparr>cells = {(0, 0), (0, 1), (0, 2)}, count = 1\<rparr>, \<lparr>cells = {(0, 0), (0, 1)}, count = 1\<rparr>] \<and>
   int (card ({(0, 0), (0, 1), (0, 2)} \<inter> {(0, 0) :: cell})) = 1 \<and>
   int (card ({(0, 0), (0, 1)} \<inter> {(0, 0) :: cell})) = 1 \<and>
   (\<exists>st'. update_knowledge scenario3 = Some st')"
proof -
  have k: "knowledge scenario3 =
     [\<lparr>cells = {(0, 0), (0, 1), (0, 2)}, count = 1\<rparr>, \<lparr>cells = {(0, 0), (0, 1)}, count = 1\<rparr>]"
    by (simp add: scenario3_def)
  have c: "int (card ({(0, 0), (0, 1), (0, 2)} \<inter> {(0, 0) :: cell})) = 1"
    "int (card ({(0, 0), (0, 1)} \<inter> {(0, 0) :: cell})) = 1"
    by simp_all
  have h: "\<forall>s\<in>set (knowledge scenario3).
             finite (cells s) \<and> count s = int (card (cells s \<inter> {(0, 0)}))"
    unfolding k using c by simp
  from update_knowledge_terminates [OF h] k c show ?thesis by simp
qed

section \<open>The constructor of the board\<close>






lemma place_mines_done:
  "int (card ms) = n \<Longrightarrow> place_mines h w n ms b rs = Some (Inr (ms, b))"
  by (subst place_mines.simps) simp

lemma place_mines_error:
  "int (card ms) \<noteq> n \<Longrightarrow> h \<le> 0 \<or> w \<le> 0 \<Longrightarrow> place_mines h w n ms b rs = Some (Inl ValueError)"
  by (subst place_mines.simps) (auto simp: randrange_def)







text \<open>
  With no mine requested the loop is not entered; with a height or width that is not
  positive and a number of mines other than 0, \<open>randrange\<close> raises \<open>ValueError\<close>.
\<close>

lemma minesweeper_init_degenerate:
  "minesweeper_init h w 0 rs =
     Some (Inr \<lparr>ms_height = h, ms_width = w, ms_mines = {}, board = empty_board h w,
               mines_found = {}\<rparr>)"
  "n \<noteq> 0 \<Longrightarrow> h \<le> 0 \<or> w \<le> 0 \<Longrightarrow> minesweeper_init h w n rs = Some (Inl ValueError)"
  by (simp_all add: minesweeper_init_def place_mines_done place_mines_error)






end
